theory Spec2Isabelle
  imports Complex_Main "HOL-Library.Word"
begin

unbundle bit_operations_syntax

section \<open>Data model\<close>

text \<open>
  The core of \<^verbatim>\<open>demo.py\<close> is the class \<^verbatim>\<open>LSBSystem\<close>. Its methods work on the
  array \<^verbatim>\<open>np.array(Image.open(path).convert('RGB'))\<close>: shape \<open>(height, width, 3)\<close>,
  element type \<^verbatim>\<open>uint8\<close>. The array is modelled by its two dimensions and its buffer in
  row-major, channel-interleaved order, which is what \<^verbatim>\<open>reshape(-1)\<close> exposes and what
  \<^verbatim>\<open>reshape((height, width, 3))\<close> wraps again. File input and output are outside the
  model: \<open>encode\<close> returns the array it hands to \<^verbatim>\<open>Image.fromarray(...).save\<close> (PNG, so the
  samples are stored bit-exactly) and \<open>decode\<close> takes the array it gets from the file.

  A Python \<^verbatim>\<open>str\<close> is a sequence of Unicode code points (\<open>py_str\<close>); a \<^verbatim>\<open>bytes\<close> value is
  a list of octets; the bit strings of the program (\<^verbatim>\<open>'0101...'\<close>) are Isabelle strings.
\<close>

type_synonym u8 = "8 word"
type_synonym py_str = "nat list"

record image =
  width :: nat
  height :: nat
  samples :: "u8 list"

definition wf_image :: "image \<Rightarrow> bool" where
  "wf_image img =
     (0 < width img \<and> 0 < height img \<and> length (samples img) = width img * height img * 3)"

definition capacity :: "image \<Rightarrow> nat" where
  "capacity img = width img * height img * 3"

text \<open>
  Every exception that leaves a method is a value of \<open>error\<close>:
  \<^item> \<open>TooLarge required available\<close>: the \<^verbatim>\<open>ValueError\<close> raised by \<^verbatim>\<open>encode\<close>, whose message
    carries \<^verbatim>\<open>len(full_bits)\<close> and \<^verbatim>\<open>max_capacity\<close>;
  \<^item> \<open>ShapeMismatch\<close>: the \<^verbatim>\<open>ValueError\<close> numpy raises when two shapes cannot be broadcast;
  \<^item> \<open>ValueError\<close>, \<open>OverflowError\<close>, \<open>UnicodeEncodeError\<close>: the Python exceptions of
    \<^verbatim>\<open>int(...)\<close>, \<^verbatim>\<open>to_bytes\<close> and \<^verbatim>\<open>str.encode\<close>.

  The two failure messages of the decoder are not exceptions: \<^verbatim>\<open>bits_to_text\<close> and
  \<^verbatim>\<open>decode\<close> hand them back with \<^verbatim>\<open>return\<close>, as ordinary strings, on the same path as
  a decoded message. They are the constants \<open>decode_error_text\<close> and \<open>no_marker_text\<close>
  below.
\<close>

datatype error =
    TooLarge nat nat
  | ShapeMismatch
  | ValueError
  | OverflowError
  | UnicodeEncodeError

definition header_len :: nat where
  "header_len = 32"

section \<open>Python built-ins used by the codec\<close>

subsection \<open>\<^verbatim>\<open>bin\<close>, \<^verbatim>\<open>zfill\<close>, \<^verbatim>\<open>int(s, 2)\<close>, \<^verbatim>\<open>int(c)\<close>, \<^verbatim>\<open>str\<close>\<close>

fun bin_digits :: "nat \<Rightarrow> string" where
  "bin_digits n =
     (if n = 0 then []
      else bin_digits (n div 2) @ [if odd n then CHR ''1'' else CHR ''0''])"

declare bin_digits.simps [simp del]

text \<open>\<^verbatim>\<open>bin(n)[2:]\<close> for \<open>n \<ge> 0\<close>: the digits without leading zeros, \<^verbatim>\<open>'0'\<close> for zero.\<close>

definition bin_str :: "nat \<Rightarrow> string" where
  "bin_str n = (if n = 0 then ''0'' else bin_digits n)"

text \<open>\<^verbatim>\<open>s.zfill(w)\<close>: zeros on the left up to width \<open>w\<close>, after a leading sign.\<close>

definition zfill :: "nat \<Rightarrow> string \<Rightarrow> string" where
  "zfill w s =
     (if w \<le> length s then s
      else (case s of
              [] \<Rightarrow> replicate w (CHR ''0'')
            | c # cs \<Rightarrow>
                if c = CHR ''+'' \<or> c = CHR ''-''
                then c # replicate (w - length s) (CHR ''0'') @ cs
                else replicate (w - length s) (CHR ''0'') @ s))"

definition is_bit :: "char \<Rightarrow> bool" where
  "is_bit c = (c = CHR ''0'' \<or> c = CHR ''1'')"

definition bit_val :: "char \<Rightarrow> nat" where
  "bit_val c = (if c = CHR ''1'' then 1 else 0)"

text \<open>
  \<^verbatim>\<open>int(s, 2)\<close> on the strings the program passes to it, which are joined digits
  \<^verbatim>\<open>'0'\<close> and \<^verbatim>\<open>'1'\<close>: the value MSB-first, \<^verbatim>\<open>ValueError\<close> on the empty string. (Signs,
  blanks, underscores and a \<^verbatim>\<open>0b\<close> prefix, which Python also accepts, never occur there;
  the model answers \<^verbatim>\<open>ValueError\<close> for every other character.)
\<close>

definition int_base2 :: "string \<Rightarrow> error + nat" where
  "int_base2 s =
     (if s = [] \<or> \<not> list_all is_bit s then Inl ValueError
      else Inr (foldl (\<lambda>acc c. 2 * acc + bit_val c) 0 s))"

text \<open>\<^verbatim>\<open>int(b)\<close> for a one-character string: a decimal digit, else \<^verbatim>\<open>ValueError\<close>.\<close>

definition int_digit :: "char \<Rightarrow> error + nat" where
  "int_digit c =
     (if c \<in> set ''0123456789'' then Inr (of_char c - 48) else Inl ValueError)"

text \<open>\<^verbatim>\<open>np.array([int(b) for b in full_bits], dtype=np.uint8)\<close>.\<close>

fun bit_list_of :: "string \<Rightarrow> error + u8 list" where
  "bit_list_of [] = Inr []"
| "bit_list_of (c # cs) =
     (case int_digit c of
        Inl e \<Rightarrow> Inl e
      | Inr d \<Rightarrow>
          (case bit_list_of cs of
             Inl e \<Rightarrow> Inl e
           | Inr ds \<Rightarrow> Inr (of_nat d # ds)))"

fun str_nat :: "nat \<Rightarrow> string" where
  "str_nat n =
     (if n < 10 then [''0123456789'' ! n]
      else str_nat (n div 10) @ [''0123456789'' ! (n mod 10)])"

declare str_nat.simps [simp del]

text \<open>\<^verbatim>\<open>"".join(map(str, xs))\<close> for an array of \<^verbatim>\<open>uint8\<close>.\<close>

definition join_str :: "u8 list \<Rightarrow> string" where
  "join_str xs = concat (map (\<lambda>x. str_nat (unat x)) xs)"

subsection \<open>\<^verbatim>\<open>int.from_bytes\<close>, \<^verbatim>\<open>bit_length\<close>, \<^verbatim>\<open>to_bytes\<close>\<close>

definition from_bytes_big :: "u8 list \<Rightarrow> nat" where
  "from_bytes_big bs = foldl (\<lambda>acc b. 256 * acc + unat b) 0 bs"

fun bit_length :: "nat \<Rightarrow> nat" where
  "bit_length n = (if n = 0 then 0 else Suc (bit_length (n div 2)))"

declare bit_length.simps [simp del]

fun be_bytes :: "nat \<Rightarrow> nat \<Rightarrow> u8 list" where
  "be_bytes 0 n = []"
| "be_bytes (Suc k) n = be_bytes k (n div 256) @ [of_nat (n mod 256)]"

text \<open>\<^verbatim>\<open>n.to_bytes(k, 'big')\<close>: \<^verbatim>\<open>OverflowError\<close> when \<open>n\<close> needs more than \<open>k\<close> bytes.\<close>

definition to_bytes_big :: "nat \<Rightarrow> nat \<Rightarrow> error + u8 list" where
  "to_bytes_big n k = (if n < 256 ^ k then Inr (be_bytes k n) else Inl OverflowError)"

subsection \<open>UTF-8\<close>

text \<open>
  \<^verbatim>\<open>text.encode('utf-8')\<close>: one to four bytes per code point; a surrogate
  (\<open>D800\<close> to \<open>DFFF\<close>) raises \<^verbatim>\<open>UnicodeEncodeError\<close>. A Python string holds no code point
  above \<open>10FFFF\<close>; the model answers the same exception there.
\<close>

definition utf8_encode_cp :: "nat \<Rightarrow> error + u8 list" where
  "utf8_encode_cp cp =
     (if cp < 0x80 then Inr [of_nat cp]
      else if cp < 0x800 then
        Inr [of_nat (0xC0 + cp div 64), of_nat (0x80 + cp mod 64)]
      else if cp < 0x10000 then
        (if 0xD800 \<le> cp \<and> cp < 0xE000 then Inl UnicodeEncodeError
         else Inr [of_nat (0xE0 + cp div 4096), of_nat (0x80 + cp div 64 mod 64),
                   of_nat (0x80 + cp mod 64)])
      else if cp < 0x110000 then
        Inr [of_nat (0xF0 + cp div 262144), of_nat (0x80 + cp div 4096 mod 64),
             of_nat (0x80 + cp div 64 mod 64), of_nat (0x80 + cp mod 64)]
      else Inl UnicodeEncodeError)"

fun utf8_encode :: "py_str \<Rightarrow> error + u8 list" where
  "utf8_encode [] = Inr []"
| "utf8_encode (cp # cps) =
     (case utf8_encode_cp cp of
        Inl e \<Rightarrow> Inl e
      | Inr bs \<Rightarrow>
          (case utf8_encode cps of
             Inl e \<Rightarrow> Inl e
           | Inr rest \<Rightarrow> Inr (bs @ rest)))"

definition is_cont :: "u8 \<Rightarrow> bool" where
  "is_cont b = (0x80 \<le> unat b \<and> unat b < 0xC0)"

definition cont_val :: "u8 \<Rightarrow> nat" where
  "cont_val b = unat b - 0x80"

text \<open>
  \<^verbatim>\<open>bs.decode('utf-8', errors='ignore')\<close>: well-formed sequences give their code point;
  an invalid start byte is dropped; a sequence broken at its second, third or fourth byte
  loses the bytes before the offending one and decoding resumes there; a sequence cut off
  by the end of the input is dropped. Overlong forms, surrogates and values above
  \<open>10FFFF\<close> are rejected at the second byte.
\<close>

fun utf8_decode_ignore :: "u8 list \<Rightarrow> py_str" where
  "utf8_decode_ignore [] = []"
| "utf8_decode_ignore (b0 # rest) =
     (if unat b0 < 0x80 then unat b0 # utf8_decode_ignore rest
      else if unat b0 < 0xC2 then utf8_decode_ignore rest
      else if unat b0 < 0xE0 then
        (case rest of
           [] \<Rightarrow> []
         | b1 # r1 \<Rightarrow>
             if is_cont b1
             then ((unat b0 - 0xC0) * 64 + cont_val b1) # utf8_decode_ignore r1
             else utf8_decode_ignore rest)
      else if unat b0 < 0xF0 then
        (case rest of
           [] \<Rightarrow> []
         | b1 # r1 \<Rightarrow>
             if \<not> is_cont b1 \<or> (unat b0 = 0xE0 \<and> unat b1 < 0xA0)
                \<or> (unat b0 = 0xED \<and> 0xA0 \<le> unat b1)
             then utf8_decode_ignore rest
             else (case r1 of
                     [] \<Rightarrow> []
                   | b2 # r2 \<Rightarrow>
                       if is_cont b2
                       then ((unat b0 - 0xE0) * 4096 + cont_val b1 * 64 + cont_val b2)
                              # utf8_decode_ignore r2
                       else utf8_decode_ignore r1))
      else if unat b0 < 0xF5 then
        (case rest of
           [] \<Rightarrow> []
         | b1 # r1 \<Rightarrow>
             if \<not> is_cont b1 \<or> (unat b0 = 0xF0 \<and> unat b1 < 0x90)
                \<or> (unat b0 = 0xF4 \<and> 0x90 \<le> unat b1)
             then utf8_decode_ignore rest
             else (case r1 of
                     [] \<Rightarrow> []
                   | b2 # r2 \<Rightarrow>
                       if \<not> is_cont b2 then utf8_decode_ignore r1
                       else (case r2 of
                               [] \<Rightarrow> []
                             | b3 # r3 \<Rightarrow>
                                 if is_cont b3
                                 then ((unat b0 - 0xF0) * 262144 + cont_val b1 * 4096
                                         + cont_val b2 * 64 + cont_val b3)
                                        # utf8_decode_ignore r3
                                 else utf8_decode_ignore r2)))
      else utf8_decode_ignore rest)"

section \<open>The codec of \<^verbatim>\<open>LSBSystem\<close>\<close>

text \<open>
  \<^verbatim>\<open>
  def text_to_bits(self, text):
      bits = bin(int.from_bytes(text.encode('utf-8'), 'big'))[2:]
      return bits.zfill(8 * ((len(bits) + 7) // 8))
  \<close>
\<close>

definition text_to_bits :: "py_str \<Rightarrow> error + string" where
  "text_to_bits txt =
     (case utf8_encode txt of
        Inl e \<Rightarrow> Inl e
      | Inr bs \<Rightarrow>
          (let bits = bin_str (from_bytes_big bs)
           in Inr (zfill (8 * ((length bits + 7) div 8)) bits)))"

text \<open>
  \<^verbatim>\<open>
  def bits_to_text(self, bits):
      try:
          n = int(bits, 2)
          return n.to_bytes((n.bit_length() + 7) // 8, 'big').decode('utf-8', errors='ignore')
      except:
          return "[...]"
  \<close>
  The string of the last line has six characters: an opening bracket, the four Chinese
  characters \<open>U+89E3 U+7801 U+9519 U+8BEF\<close> ("decoding error") and a closing bracket.
  The bare \<^verbatim>\<open>except\<close> turns every exception of the body into that string, so the
  method returns a \<^verbatim>\<open>str\<close> on every path.
\<close>

definition decode_error_text :: py_str where
  "decode_error_text = [0x5B, 0x89E3, 0x7801, 0x9519, 0x8BEF, 0x5D]"

definition bits_to_text :: "string \<Rightarrow> py_str" where
  "bits_to_text bits =
     (case int_base2 bits of
        Inl e \<Rightarrow> decode_error_text
      | Inr n \<Rightarrow>
          (case to_bytes_big n ((bit_length n + 7) div 8) of
             Inl e \<Rightarrow> decode_error_text
           | Inr bs \<Rightarrow> utf8_decode_ignore bs))"

text \<open>The stream \<^verbatim>\<open>full_bits = length_bits + text_bits\<close> that \<^verbatim>\<open>encode\<close> builds from the payload bits.\<close>

definition full_bits :: "string \<Rightarrow> string" where
  "full_bits text_bits = zfill header_len (bin_str (length text_bits)) @ text_bits"

text \<open>
  \<^verbatim>\<open>encode\<close>, from the array to the array that is saved. The slice assignment
  \<^verbatim>\<open>flat_array[:n] = (flat_array[:n] & 254) | bit_list\<close> with \<open>n = len(bit_list)\<close> is
  \<open>write_lsbs\<close>; it raises \<^verbatim>\<open>ValueError\<close> when the slice is shorter than \<^verbatim>\<open>bit_list\<close>
  (the shapes cannot be broadcast).
\<close>

definition write_lsbs :: "u8 list \<Rightarrow> u8 list \<Rightarrow> u8 list" where
  "write_lsbs flat_array bit_list =
     (let n = length bit_list
      in map2 (\<lambda>x b. (x AND 254) OR b) (take n flat_array) bit_list @ drop n flat_array)"

definition encode :: "image \<Rightarrow> py_str \<Rightarrow> error + image" where
  "encode img secret_text =
     (case text_to_bits secret_text of
        Inl e \<Rightarrow> Inl e
      | Inr text_bits \<Rightarrow>
          (let length_bits = zfill header_len (bin_str (length text_bits));
               full_bits = length_bits @ text_bits;
               total_pixels = width img * height img;
               max_capacity = total_pixels * 3
           in if length full_bits > max_capacity
              then Inl (TooLarge (length full_bits) max_capacity)
              else (case bit_list_of full_bits of
                      Inl e \<Rightarrow> Inl e
                    | Inr bit_list \<Rightarrow>
                        (let flat_array = samples img
                         in if length (take (length bit_list) flat_array) \<noteq> length bit_list
                            then Inl ValueError
                            else Inr (img\<lparr>samples := write_lsbs flat_array bit_list\<rparr>)))))"

text \<open>
  \<^verbatim>\<open>decode\<close>. The comparison \<^verbatim>\<open>msg_len > len(lsb_bits) - self.header_len\<close> is one of Python
  integers: the right-hand side is negative for an array of fewer than 32 samples. When it
  holds the method returns a fixed string of fifteen characters,
  \<open>U+9519 U+8BEF U+FF1A U+672A U+80FD U+68C0 U+6D4B U+5230 U+6709 U+6548 U+7684 U+9690 U+5199
  U+6807 U+8BB0\<close> ("error: no valid steganographic marker detected"); otherwise it returns
  what \<^verbatim>\<open>bits_to_text\<close> returns. Both are values of type \<^verbatim>\<open>str\<close>; the only exception
  that can leave the method is the \<^verbatim>\<open>ValueError\<close> of \<^verbatim>\<open>int(length_str, 2)\<close>, which is
  outside every \<^verbatim>\<open>try\<close>.
\<close>

definition no_marker_text :: py_str where
  "no_marker_text =
     [0x9519, 0x8BEF, 0xFF1A, 0x672A, 0x80FD, 0x68C0, 0x6D4B, 0x5230, 0x6709, 0x6548, 0x7684,
      0x9690, 0x5199, 0x6807, 0x8BB0]"

definition lsb_bits :: "image \<Rightarrow> u8 list" where
  "lsb_bits img = map (\<lambda>x. x AND 1) (samples img)"

definition decode :: "image \<Rightarrow> error + py_str" where
  "decode img =
     (let length_bits_list = take header_len (lsb_bits img);
          length_str = join_str length_bits_list
      in case int_base2 length_str of
           Inl e \<Rightarrow> Inl e
         | Inr msg_len \<Rightarrow>
             if int msg_len > int (length (lsb_bits img)) - int header_len
             then Inr no_marker_text
             else (let msg_bits_list = take msg_len (drop header_len (lsb_bits img));
                       msg_bits_str = join_str msg_bits_list
                   in Inr (bits_to_text msg_bits_str)))"

text \<open>
  \<^verbatim>\<open>decode\<close> applied to the array that \<^verbatim>\<open>encode\<close> saved: the composition the round-trip
  statements are about. A failure of \<^verbatim>\<open>encode\<close> is passed on.
\<close>

definition round_trip :: "image \<Rightarrow> py_str \<Rightarrow> error + py_str" where
  "round_trip img secret_text =
     (case encode img secret_text of Inl e \<Rightarrow> Inl e | Inr stego \<Rightarrow> decode stego)"

section \<open>PSNR\<close>

text \<open>
  \<^verbatim>\<open>
  mse = np.mean((img1 - img2) ** 2)
  if mse == 0:
      return float('inf')
  return 10 * math.log10(255.0**2 / mse)
  \<close>
  Both arrays are \<^verbatim>\<open>float64\<close> of shape \<open>(height, width, 3)\<close>. The subtraction follows numpy's
  broadcasting: two dimensions fit when they are equal or one of them is 1, and the array
  whose dimension is 1 is repeated along it; otherwise numpy raises. The mean of an empty
  array is \<^verbatim>\<open>nan\<close>, which is not equal to 0 and goes through the last line unchanged. The
  squared differences are whole numbers, so which branch is taken does not depend on
  rounding; the value of the last line is given as a real number.
\<close>

datatype psnr_value = Infinity | NaN | Decibel real

definition broadcast_dim :: "nat \<Rightarrow> nat \<Rightarrow> nat option" where
  "broadcast_dim m n =
     (if m = n then Some m else if m = 1 then Some n else if n = 1 then Some m else None)"

definition sample_at :: "image \<Rightarrow> nat \<Rightarrow> nat \<Rightarrow> nat \<Rightarrow> real" where
  "sample_at img i j c =
     (let i' = (if height img = 1 then 0 else i);
          j' = (if width img = 1 then 0 else j)
      in real (unat (samples img ! ((i' * width img + j') * 3 + c))))"

definition squared_diffs :: "image \<Rightarrow> image \<Rightarrow> nat \<Rightarrow> nat \<Rightarrow> real list" where
  "squared_diffs img1 img2 h w =
     concat (map (\<lambda>i. concat (map (\<lambda>j. map (\<lambda>c. (sample_at img1 i j c - sample_at img2 i j c)\<^sup>2)
                                          [0..<3]) [0..<w])) [0..<h])"

definition calculate_psnr :: "image \<Rightarrow> image \<Rightarrow> error + psnr_value" where
  "calculate_psnr img1 img2 =
     (case broadcast_dim (height img1) (height img2) of
        None \<Rightarrow> Inl ShapeMismatch
      | Some h \<Rightarrow>
          (case broadcast_dim (width img1) (width img2) of
             None \<Rightarrow> Inl ShapeMismatch
           | Some w \<Rightarrow>
               (let sq = squared_diffs img1 img2 h w
                in if sq = [] then Inr NaN
                   else (let mse = sum_list sq / real (length sq)
                         in if mse = 0 then Inr Infinity
                            else Inr (Decibel (10 * log 10 (255\<^sup>2 / mse)))))))"

section \<open>Concrete inputs\<close>

text \<open>
  Small images and messages on which the statements below are evaluated: carriers of 48,
  51 and 300 samples, the arrays \<^verbatim>\<open>encode\<close> produces from the first two for the message
  \<^verbatim>\<open>"hi"\<close>, and a message of 34 letters \<^verbatim>\<open>a\<close> with its 272 payload bits.
\<close>

definition carrier48 :: image where
  "carrier48 = \<lparr>width = 16, height = 1, samples =
     [171, 171, 171, 171, 171, 171, 171, 171, 171, 171, 171, 171, 171, 171, 171, 171,
      171, 171, 171, 171, 171, 171, 171, 171, 171, 171, 171, 171, 171, 171, 171, 171,
      171, 171, 171, 171, 171, 171, 171, 171, 171, 171, 171, 171, 171, 171, 171, 171]\<rparr>"

definition stego48 :: image where
  "stego48 = \<lparr>width = 16, height = 1, samples =
     [170, 170, 170, 170, 170, 170, 170, 170, 170, 170, 170, 170, 170, 170, 170, 170,
      170, 170, 170, 170, 170, 170, 170, 170, 170, 170, 170, 171, 170, 170, 170, 170,
      170, 171, 171, 170, 171, 170, 170, 170, 170, 171, 171, 170, 171, 170, 170, 171]\<rparr>"

definition carrier51 :: image where
  "carrier51 = \<lparr>width = 17, height = 1, samples =
     [171, 171, 171, 171, 171, 171, 171, 171, 171, 171, 171, 171, 171, 171, 171, 171,
      171, 171, 171, 171, 171, 171, 171, 171, 171, 171, 171, 171, 171, 171, 171, 171,
      171, 171, 171, 171, 171, 171, 171, 171, 171, 171, 171, 171, 171, 171, 171, 171,
      171, 171, 171]\<rparr>"





text \<open>
  The text of the early \<^verbatim>\<open>return\<close> of \<^verbatim>\<open>decode\<close> as a message: its 45 UTF-8 bytes, its
  360 payload bits, a carrier of 131 pixels (393 samples, all 0) and the array \<^verbatim>\<open>encode\<close>
  produces from it: the header 360, the payload, and one untouched sample.
\<close>

definition marker_carrier :: image where
  "marker_carrier = \<lparr>width = 131, height = 1, samples = replicate 393 0\<rparr>"

definition marker_bytes :: "u8 list" where
  "marker_bytes =
     [233, 148, 153, 232, 175, 175, 239, 188, 154, 230, 156, 170, 232, 131, 189,
      230, 163, 128, 230, 181, 139, 229, 136, 176, 230, 156, 137, 230, 149, 136,
      231, 154, 132, 233, 154, 144, 229, 134, 153, 230, 160, 135, 232, 174, 176]"

definition marker_bits :: string where
  "marker_bits =
     ''111010011001010010011001111010001010111110101111111011111011110010011010'' @
     ''111001101001110010101010111010001000001110111101111001101010001110000000'' @
     ''111001101011010110001011111001011000100010110000111001101001110010001001'' @
     ''111001101001010110001000111001111001101010000100111010011001101010010000'' @
     ''111001011000011010011001111001101010000010000111111010001010111010110000''"

definition marker_stego :: image where
  "marker_stego = \<lparr>width = 131, height = 1, samples =
     [0, 0, 0, 0, 0, 0, 0, 0, 0, 0, 0, 0, 0, 0, 0, 0, 0, 0, 0, 0, 0, 0, 0, 1, 0, 1, 1, 0, 1, 0, 0, 0,
      1, 1, 1, 0, 1, 0, 0, 1, 1, 0, 0, 1, 0, 1, 0, 0, 1, 0, 0, 1, 1, 0, 0, 1, 1, 1, 1, 0, 1, 0, 0, 0,
      1, 0, 1, 0, 1, 1, 1, 1, 1, 0, 1, 0, 1, 1, 1, 1, 1, 1, 1, 0, 1, 1, 1, 1, 1, 0, 1, 1, 1, 1, 0, 0,
      1, 0, 0, 1, 1, 0, 1, 0, 1, 1, 1, 0, 0, 1, 1, 0, 1, 0, 0, 1, 1, 1, 0, 0, 1, 0, 1, 0, 1, 0, 1, 0,
      1, 1, 1, 0, 1, 0, 0, 0, 1, 0, 0, 0, 0, 0, 1, 1, 1, 0, 1, 1, 1, 1, 0, 1, 1, 1, 1, 0, 0, 1, 1, 0,
      1, 0, 1, 0, 0, 0, 1, 1, 1, 0, 0, 0, 0, 0, 0, 0, 1, 1, 1, 0, 0, 1, 1, 0, 1, 0, 1, 1, 0, 1, 0, 1,
      1, 0, 0, 0, 1, 0, 1, 1, 1, 1, 1, 0, 0, 1, 0, 1, 1, 0, 0, 0, 1, 0, 0, 0, 1, 0, 1, 1, 0, 0, 0, 0,
      1, 1, 1, 0, 0, 1, 1, 0, 1, 0, 0, 1, 1, 1, 0, 0, 1, 0, 0, 0, 1, 0, 0, 1, 1, 1, 1, 0, 0, 1, 1, 0,
      1, 0, 0, 1, 0, 1, 0, 1, 1, 0, 0, 0, 1, 0, 0, 0, 1, 1, 1, 0, 0, 1, 1, 1, 1, 0, 0, 1, 1, 0, 1, 0,
      1, 0, 0, 0, 0, 1, 0, 0, 1, 1, 1, 0, 1, 0, 0, 1, 1, 0, 0, 1, 1, 0, 1, 0, 1, 0, 0, 1, 0, 0, 0, 0,
      1, 1, 1, 0, 0, 1, 0, 1, 1, 0, 0, 0, 0, 1, 1, 0, 1, 0, 0, 1, 1, 0, 0, 1, 1, 1, 1, 0, 0, 1, 1, 0,
      1, 0, 1, 0, 0, 0, 0, 0, 1, 0, 0, 0, 0, 1, 1, 1, 1, 1, 1, 0, 1, 0, 0, 0, 1, 0, 1, 0, 1, 1, 1, 0,
      1, 0, 1, 1, 0, 0, 0, 0, 0]\<rparr>"

section \<open>Facts about the built-ins\<close>

subsection \<open>Binary strings\<close>

lemma is_bit_0 [simp]: "is_bit (CHR ''0'')" by (simp add: is_bit_def)
lemma is_bit_1 [simp]: "is_bit (CHR ''1'')" by (simp add: is_bit_def)

lemma bin_digits_0 [simp]: "bin_digits 0 = []"
  by (simp add: bin_digits.simps)

lemma bin_digits_pos:
  "0 < n \<Longrightarrow> bin_digits n = bin_digits (n div 2) @ [if odd n then CHR ''1'' else CHR ''0'']"
  by (subst bin_digits.simps) simp

lemma bit_length_0 [simp]: "bit_length 0 = 0"
  by (simp add: bit_length.simps)

lemma bit_length_pos: "0 < n \<Longrightarrow> bit_length n = Suc (bit_length (n div 2))"
  by (subst bit_length.simps) simp

lemma bin_digits_bits: "list_all is_bit (bin_digits n)"
proof (induction n rule: bin_digits.induct)
  case (1 n)
  then show ?case by (cases "n = 0") (simp_all add: bin_digits_pos)
qed

lemma bin_str_bits: "list_all is_bit (bin_str n)"
  by (simp add: bin_str_def bin_digits_bits)

lemma bin_str_nonempty: "bin_str n \<noteq> []"
  by (cases "n = 0") (simp_all add: bin_str_def bin_digits_pos)

lemma length_bin_digits: "length (bin_digits n) = bit_length n"
proof (induction n rule: bin_digits.induct)
  case (1 n)
  then show ?case by (cases "n = 0") (simp_all add: bin_digits_pos bit_length_pos)
qed

lemma bit_length_le: "n < 2 ^ k \<Longrightarrow> bit_length n \<le> k"
proof (induction k arbitrary: n)
  case 0
  then show ?case by simp
next
  case (Suc k)
  then have "n div 2 < 2 ^ k" by simp
  then have "bit_length (n div 2) \<le> k" by (rule Suc.IH)
  then show ?case by (cases "n = 0") (simp_all add: bit_length_pos)
qed

lemma bit_length_upper: "n < 2 ^ bit_length n"
proof (induction n rule: bit_length.induct)
  case (1 n)
  show ?case
  proof (cases "n = 0")
    case True
    then show ?thesis by simp
  next
    case False
    then have "n div 2 < 2 ^ bit_length (n div 2)" using 1 by simp
    then have "n < 2 * 2 ^ bit_length (n div 2)" by linarith
    then show ?thesis using False by (simp add: bit_length_pos)
  qed
qed

lemma bit_length_lower: "0 < n \<Longrightarrow> 2 ^ bit_length n \<le> 2 * n"
proof (induction n rule: bit_length.induct)
  case (1 n)
  show ?case
  proof (cases "n div 2 = 0")
    case True
    with 1(2) have "n = 1" by (simp add: div_eq_0_iff) 
    then show ?thesis by (simp add: bit_length_pos)
  next
    case False
    then have "2 ^ bit_length (n div 2) \<le> 2 * (n div 2)" using 1 by simp
    also have "\<dots> \<le> n" by simp
    finally show ?thesis using 1(2) by (simp add: bit_length_pos)
  qed
qed

lemma zfill_bits: "list_all is_bit s \<Longrightarrow> zfill w s = replicate (w - length s) (CHR ''0'') @ s"
  by (cases s) (auto simp: zfill_def is_bit_def)

lemma length_zfill: "length (zfill w s) = max w (length s)"
  by (cases s) (auto simp: zfill_def)

lemma zfill_is_bit: "list_all is_bit s \<Longrightarrow> list_all is_bit (zfill w s)"
  by (auto simp: zfill_bits list_all_iff)

lemma foldl_zeros: "foldl (\<lambda>acc c. 2 * acc + bit_val c) 0 (replicate k (CHR ''0'')) = 0"
proof (induction k)
  case 0
  then show ?case by simp
next
  case (Suc k)
  then show ?case by (simp add: bit_val_def)
qed

lemma foldl_bin_digits: "foldl (\<lambda>acc c. 2 * acc + bit_val c) 0 (bin_digits n) = n"
proof (induction n rule: bin_digits.induct)
  case (1 n)
  then show ?case by (cases "n = 0") (auto simp: bin_digits_pos bit_val_def)
qed

lemma foldl_bin_str: "foldl (\<lambda>acc c. 2 * acc + bit_val c) 0 (bin_str n) = n"
  by (cases "n = 0") (simp_all add: bin_str_def foldl_bin_digits, simp add: bit_val_def)

lemma int_base2_zfill_bin: "int_base2 (zfill w (bin_str n)) = Inr n"
proof -
  have "zfill w (bin_str n) \<noteq> []"
    using bin_str_nonempty[of n] by (simp add: zfill_bits bin_str_bits)
  moreover have "list_all is_bit (zfill w (bin_str n))"
    by (simp add: zfill_is_bit bin_str_bits)
  moreover have "foldl (\<lambda>acc c. 2 * acc + bit_val c) 0 (zfill w (bin_str n)) = n"
    by (simp add: zfill_bits bin_str_bits foldl_zeros foldl_bin_str)
  ultimately show ?thesis by (simp add: int_base2_def)
qed

lemma length_header: "n < 2 ^ 32 \<Longrightarrow> length (zfill header_len (bin_str n)) = 32"
  using bit_length_le[of n 32]
  by (cases "n = 0") (simp_all add: length_zfill header_len_def bin_str_def length_bin_digits)

subsection \<open>Writing and reading least significant bits\<close>

lemma c254: "(254::u8) = NOT 1" by simp
lemma c127: "(127::u8) = mask 7" by (simp add: mask_eq_exp_minus_1)

lemma and1_cases: "(x::u8) AND 1 = 0 \<or> x AND 1 = 1"
  by (simp add: and_one_eq mod_2_eq_odd)

lemma lsb_write0: "(((x::u8) AND 254) OR 0) AND 1 = 0"
  unfolding c254 by (simp add: and.assoc)

lemma lsb_write1: "(((x::u8) AND 254) OR 1) AND 1 = 1"
  by (simp add: bit_eq_iff bit_simps) 

lemma high_write1: "drop_bit 1 (((x::u8) AND 254) OR 1) = drop_bit 1 x"
  unfolding c254
  apply (rule bit_word_eqI)
  apply (simp add: bit_simps c127)
  apply (auto dest: bit_imp_le_length)
  done

lemma high_write0: "drop_bit 1 (((x::u8) AND 254) OR 0) = drop_bit 1 x"
  unfolding c254
  apply (rule bit_word_eqI)
  apply (simp add: bit_simps c127)
  apply (auto dest: bit_imp_le_length)
  done

lemma str_nat_0: "str_nat 0 = ''0''" by (simp add: str_nat.simps)
lemma str_nat_1: "str_nat (Suc 0) = ''1''" by (simp add: str_nat.simps)

lemma int_digit_bit: "is_bit c \<Longrightarrow> int_digit c = Inr (bit_val c)"
  by (auto simp: is_bit_def int_digit_def bit_val_def)

lemma bit_list_of_bits: "list_all is_bit s \<Longrightarrow> bit_list_of s = Inr (map (\<lambda>c. of_nat (bit_val c)) s)"
  by (induction s) (simp_all add: int_digit_bit)

lemma join_str_lsb_single:
  assumes "is_bit c"
  shows "str_nat (unat ((((x::u8) AND 254) OR of_nat (bit_val c)) AND 1)) = [c]"
proof (cases "c = CHR ''1''")
  case True
  then show ?thesis using lsb_write1[of x] by (simp add: bit_val_def str_nat_1)
next
  case False
  with assms have "c = CHR ''0''" by (simp add: is_bit_def)
  then show ?thesis using lsb_write0[of x] by (simp add: bit_val_def str_nat_0)
qed

lemma join_str_Cons: "join_str (x # xs) = str_nat (unat x) @ join_str xs"
  by (simp add: join_str_def)

lemma join_str_Nil [simp]: "join_str [] = []"
  by (simp add: join_str_def)

lemma join_str_append: "join_str (xs @ ys) = join_str xs @ join_str ys"
  by (simp add: join_str_def)

lemma join_written:
  "list_all is_bit s \<Longrightarrow> length xs = length s \<Longrightarrow>
   join_str (map (\<lambda>x. x AND 1) (map2 (\<lambda>x b. (x AND 254) OR b) xs (map (\<lambda>c. of_nat (bit_val c)) s))) = s"
proof (induction s arbitrary: xs)
  case Nil
  then show ?case by simp
next
  case (Cons c s)
  then obtain x xs' where xs: "xs = x # xs'" by (cases xs) auto
  with Cons show ?case by (simp add: join_str_Cons join_str_lsb_single)
qed

lemma str_lsb: "str_nat (unat ((x::u8) AND 1)) = ''0'' \<or> str_nat (unat (x AND 1)) = ''1''"
  using and1_cases[of x] by (auto simp: str_nat_0 str_nat_1)

lemma join_lsb_length: "length (join_str (map (\<lambda>x. x AND 1) xs)) = length xs"
proof (induction xs)
  case Nil
  then show ?case by simp
next
  case (Cons x xs)
  then show ?case using str_lsb[of x] by (auto simp: join_str_Cons)
qed

lemma join_lsb_bits: "list_all is_bit (join_str (map (\<lambda>x. x AND 1) xs))"
proof (induction xs)
  case Nil
  then show ?case by simp
next
  case (Cons x xs)
  then show ?case using str_lsb[of x] by (auto simp: join_str_Cons)
qed

lemma bit_val_le: "bit_val c \<le> 1" by (simp add: bit_val_def)

lemma unat_bit_val: "unat (of_nat (bit_val c) :: u8) = bit_val c"
  by (simp add: bit_val_def)

lemma str_bit_val: "is_bit c \<Longrightarrow> str_nat (bit_val c) = [c]"
  by (auto simp: is_bit_def bit_val_def str_nat_0 str_nat_1)

lemma join_bit_words: "list_all is_bit s \<Longrightarrow> join_str (map (\<lambda>c. of_nat (bit_val c)) s) = s"
  by (induction s) (simp_all add: join_str_Cons unat_bit_val str_bit_val)

lemma lsb_written_bit: "(((x::u8) AND 254) OR of_nat (bit_val c)) AND 1 = of_nat (bit_val c)"
  using lsb_write0[of x] lsb_write1[of x] by (simp add: bit_val_def)

lemma high_written_bit: "drop_bit 1 (((x::u8) AND 254) OR of_nat (bit_val c)) = drop_bit 1 x"
  using high_write0[of x] high_write1[of x] by (simp add: bit_val_def)

lemma lsbs_map2:
  fixes xs :: "u8 list"
  shows "length xs = length s \<Longrightarrow>
   map (\<lambda>x. x AND 1) (map2 (\<lambda>x b. (x AND 254) OR b) xs (map (\<lambda>c. of_nat (bit_val c)) s))
     = map (\<lambda>c. of_nat (bit_val c)) s"
proof (induction s arbitrary: xs)
  case Nil
  then show ?case by simp
next
  case (Cons c s)
  then obtain x xs' where "xs = x # xs'" by (cases xs) auto
  with Cons show ?case by (simp add: lsb_written_bit)
qed

lemma length_write_lsbs: "length (write_lsbs flat bl) = length flat"
  by (simp add: write_lsbs_def Let_def)


lemma write_lsbs_nth:
  "i < length bl \<Longrightarrow> i < length flat \<Longrightarrow> write_lsbs flat bl ! i = (flat ! i AND 254) OR bl ! i"
  by (simp add: write_lsbs_def Let_def nth_append)

lemma lsbs_write_lsbs:
  assumes "length s \<le> length flat"
  shows "map (\<lambda>x. x AND 1) (write_lsbs flat (map (\<lambda>c. of_nat (bit_val c)) s))
     = map (\<lambda>c. of_nat (bit_val c)) s @ map (\<lambda>x. x AND 1) (drop (length s) flat)"
proof -
  have "length (take (length s) flat) = length s" using assms by simp
  from lsbs_map2[OF this] show ?thesis
    by (simp add: write_lsbs_def Let_def)
qed

lemma high_write_lsbs:
  assumes "i < length flat"
  shows "drop_bit 1 (write_lsbs flat (map (\<lambda>c. of_nat (bit_val c)) s) ! i) = drop_bit 1 (flat ! i)"
proof (cases "i < length s")
  case True
  with assms have "write_lsbs flat (map (\<lambda>c. of_nat (bit_val c)) s) ! i
      = (flat ! i AND 254) OR of_nat (bit_val (s ! i))"
    by (simp add: write_lsbs_nth)
  then show ?thesis by (simp only: high_written_bit)
next
  case False
  with assms show ?thesis
    by (simp add: write_lsbs_def Let_def nth_append)
qed

section \<open>Facts about \<^verbatim>\<open>encode\<close> and \<^verbatim>\<open>decode\<close>\<close>

lemma text_to_bits_bits: "text_to_bits t = Inr tb \<Longrightarrow> list_all is_bit tb"
  by (auto simp: text_to_bits_def Let_def zfill_is_bit bin_str_bits split: sum.splits)


lemma full_bits_bits: "list_all is_bit tb \<Longrightarrow> list_all is_bit (full_bits tb)"
  by (simp add: full_bits_def zfill_is_bit bin_str_bits)

lemma length_full_bits: "length tb < 2 ^ 32 \<Longrightarrow> length (full_bits tb) = 32 + length tb"
  by (simp add: full_bits_def length_header)

lemma length_full_bits_ge: "32 + length tb \<le> length (full_bits tb)"
  by (simp add: full_bits_def length_zfill header_len_def)


lemma encode_success:
  "text_to_bits t = Inr tb \<Longrightarrow> length (full_bits tb) \<le> width img * height img * 3 \<Longrightarrow>
   length (full_bits tb) \<le> length (samples img) \<Longrightarrow>
   encode img t = Inr (img\<lparr>samples := write_lsbs (samples img) (map (\<lambda>c. of_nat (bit_val c)) (full_bits tb))\<rparr>)"
  using bit_list_of_bits[OF full_bits_bits[OF text_to_bits_bits]]
  by (simp add: encode_def Let_def full_bits_def)

lemma encode_InrD:
  assumes "encode img t = Inr img'"
  shows "\<exists>tb. text_to_bits t = Inr tb \<and> length (full_bits tb) \<le> width img * height img * 3
           \<and> length (full_bits tb) \<le> length (samples img)
           \<and> img' = img\<lparr>samples := write_lsbs (samples img) (map (\<lambda>c. of_nat (bit_val c)) (full_bits tb))\<rparr>"
proof (cases "text_to_bits t")
  case (Inl e)
  with assms show ?thesis by (simp add: encode_def)
next
  case (Inr tb)
  have bl: "bit_list_of (full_bits tb) = Inr (map (\<lambda>c. of_nat (bit_val c)) (full_bits tb))"
    using bit_list_of_bits[OF full_bits_bits[OF text_to_bits_bits[OF Inr]]] .
  from assms Inr bl show ?thesis
    by (auto simp: encode_def Let_def full_bits_def split: if_splits)
qed

lemma lsb_bits_encoded:
  assumes "length (full_bits tb) \<le> length (samples img)"
  shows "lsb_bits (img\<lparr>samples := write_lsbs (samples img) (map (\<lambda>c. of_nat (bit_val c)) (full_bits tb))\<rparr>)
     = map (\<lambda>c. of_nat (bit_val c)) (zfill header_len (bin_str (length tb)))
       @ map (\<lambda>c. of_nat (bit_val c)) tb
       @ map (\<lambda>x. x AND 1) (drop (length (full_bits tb)) (samples img))"
  using lsbs_write_lsbs[OF assms] by (simp add: lsb_bits_def full_bits_def)

lemma decode_encoded:
  assumes tb: "list_all is_bit tb" and small: "length tb < 2 ^ 32"
    and fits: "length (full_bits tb) \<le> length (samples img)"
  shows "decode (img\<lparr>samples := write_lsbs (samples img) (map (\<lambda>c. of_nat (bit_val c)) (full_bits tb))\<rparr>)
     = Inr (bits_to_text tb)"
proof -
  let ?img' = "img\<lparr>samples := write_lsbs (samples img) (map (\<lambda>c. of_nat (bit_val c)) (full_bits tb))\<rparr>"
  let ?hdr = "zfill header_len (bin_str (length tb))"
  have lh: "length ?hdr = 32" using small by (rule length_header)
  have hb: "list_all is_bit ?hdr" by (simp add: zfill_is_bit bin_str_bits)
  have lsb: "lsb_bits ?img' = map (\<lambda>c. of_nat (bit_val c)) ?hdr @ map (\<lambda>c. of_nat (bit_val c)) tb
       @ map (\<lambda>x. x AND 1) (drop (length (full_bits tb)) (samples img))"
    using fits by (rule lsb_bits_encoded)
  have len: "length (lsb_bits ?img') = length (samples img)"
    by (simp add: lsb_bits_def length_write_lsbs)
  have h: "join_str (take header_len (lsb_bits ?img')) = ?hdr"
    unfolding lsb using lh hb by (simp add: header_len_def join_bit_words)
  have p: "join_str (take (length tb) (drop header_len (lsb_bits ?img'))) = tb"
    unfolding lsb using lh tb by (simp add: header_len_def join_bit_words)
  have n: "int_base2 ?hdr = Inr (length tb)" by (rule int_base2_zfill_bin)
  have c: "\<not> int (length tb) > int (length (lsb_bits ?img')) - int header_len"
    using fits length_full_bits[OF small] unfolding len by (simp add: header_len_def)
  show ?thesis
    unfolding decode_def Let_def h n using c p by simp
qed

section \<open>Facts about \<^verbatim>\<open>calculate_psnr\<close>\<close>

lemma squared_diffs_same: "x \<in> set (squared_diffs img img h w) \<Longrightarrow> x = 0"
  by (auto simp: squared_diffs_def split: if_splits)

lemma length_squared_diffs: "length (squared_diffs a b h w) = h * w * 3"
proof -
  have "length (squared_diffs a b h w) = (\<Sum>i\<leftarrow>[0..<h]. (\<Sum>j\<leftarrow>[0..<w]. 3))"
    by (simp add: squared_diffs_def length_concat comp_def)
  also have "\<dots> = h * w * 3" by (simp add: sum_list_triv)
  finally show ?thesis .
qed

lemma sum_list_zero: "(\<And>x. x \<in> set xs \<Longrightarrow> x = (0::real)) \<Longrightarrow> sum_list xs = 0"
  by (induction xs) auto

lemma broadcast_dim_same: "broadcast_dim n n = Some n"
  by (simp add: broadcast_dim_def)

lemma upt3: "[0..<3] = [0, 1, 2]"
  by (simp add: upt_rec)

lemma upt2: "[0..<2] = [0, 1]"
  by (simp add: upt_rec)

subsection \<open>Extraction after embedding\<close>

lemma rep7: "replicate 7 (CHR ''0'') = ''0000000''"
  by (simp add: numeral_eq_Suc)

lemma text_to_bits_empty: "text_to_bits [] = Inr ''00000000''"
  by (simp add: text_to_bits_def from_bytes_big_def bin_str_def zfill_def rep7)

lemma bits_to_text_zero_byte: "bits_to_text ''00000000'' = []"
  by (simp add: bits_to_text_def int_base2_def bit_val_def to_bytes_big_def)

lemma round_trip_bits:
  assumes wf: "wf_image img" and tb: "text_to_bits t = Inr tb" and small: "length tb < 2 ^ 32"
    and fits: "32 + length tb \<le> capacity img"
  shows "round_trip img t = Inr (bits_to_text tb)"
proof -
  let ?stego = "img\<lparr>samples := write_lsbs (samples img)
                   (map (\<lambda>c. of_nat (bit_val c)) (full_bits tb))\<rparr>"
  have l: "length (full_bits tb) = 32 + length tb"
    using small by (rule length_full_bits)
  have c: "capacity img = length (samples img)"
    using wf by (simp add: wf_image_def capacity_def)
  have e: "encode img t = Inr ?stego"
    using tb fits wf by (intro encode_success) (simp_all add: l wf_image_def capacity_def)
  have "decode ?stego = Inr (bits_to_text tb)"
    using text_to_bits_bits[OF tb] small fits by (intro decode_encoded) (simp_all add: l c)
  with e show ?thesis by (simp add: round_trip_def)
qed

subsection \<open>Reading the header\<close>

lemma bits_to_text_empty: "bits_to_text [] = decode_error_text"
  by (simp add: bits_to_text_def int_base2_def)

lemma join_str_zeros: "join_str (replicate k 0) = replicate k (CHR ''0'')"
  by (induction k) (simp_all add: join_str_Cons str_nat_0)

lemma int_base2_zeros: "0 < k \<Longrightarrow> int_base2 (replicate k (CHR ''0'')) = Inr 0"
  by (simp add: int_base2_def foldl_zeros list_all_iff)

lemma header_parses:
  assumes "32 \<le> length (samples img)"
  shows "\<exists>n. int_base2 (join_str (take header_len (lsb_bits img))) = Inr n"
proof -
  let ?s = "join_str (take header_len (lsb_bits img))"
  have t: "take header_len (lsb_bits img) = map (\<lambda>x. x AND 1) (take header_len (samples img))"
    by (simp add: lsb_bits_def take_map)
  have "length ?s = 32" using assms unfolding t join_lsb_length by (simp add: header_len_def)
  then have "?s \<noteq> []" by auto
  moreover have "list_all is_bit ?s" unfolding t by (rule join_lsb_bits)
  ultimately show ?thesis by (simp add: int_base2_def)
qed

lemma join_str_ones: "join_str (replicate k 1) = replicate k (CHR ''1'')"
  by (induction k) (simp_all add: join_str_Cons str_nat_1)

lemma foldl_ones: "foldl (\<lambda>acc c. 2 * acc + bit_val c) 0 (replicate k (CHR ''1'')) = 2 ^ k - 1"
proof (induction k)
  case 0
  then show ?case by simp
next
  case (Suc k)
  have r: "replicate (Suc k) (CHR ''1'') = replicate k (CHR ''1'') @ ''1''"
    by (simp add: replicate_append_same)
  have p: "(1::nat) \<le> 2 ^ k" by simp
  have "Suc (2 * (2 ^ k - Suc 0)) = 2 * 2 ^ k - Suc 0" using p by arith
  then show ?case unfolding r foldl_append Suc by (simp add: bit_val_def)
qed

lemma ones32: "int_base2 (replicate 32 (CHR ''1'')) = Inr 4294967295"
  by (simp add: int_base2_def foldl_ones list_all_iff)

subsection \<open>The embedded stream, and evaluations on the concrete inputs\<close>

lemma header_str_encoded:
  assumes small: "length tb < 2 ^ 32"
    and fits: "length (full_bits tb) \<le> length (samples img)"
  shows "join_str (take header_len (lsb_bits (img\<lparr>samples := write_lsbs (samples img)
            (map (\<lambda>c. of_nat (bit_val c)) (full_bits tb))\<rparr>)))
         = zfill header_len (bin_str (length tb))"
proof -
  let ?hdr = "zfill header_len (bin_str (length tb))"
  have lh: "length ?hdr = 32" using small by (rule length_header)
  have hb: "list_all is_bit ?hdr" by (simp add: zfill_is_bit bin_str_bits)
  show ?thesis
    unfolding lsb_bits_encoded[OF fits] using lh hb by (simp add: header_len_def join_bit_words)
qed


lemma hi_bits: "text_to_bits [104, 105] = Inr ''0110100001101001''"
  by (simp add: text_to_bits_def utf8_encode_cp_def from_bytes_big_def bin_str_def
      bin_digits_pos zfill_def)



lemma nul_a_bits: "text_to_bits [0, 97] = Inr ''01100001''"
  by (simp add: text_to_bits_def utf8_encode_cp_def from_bytes_big_def bin_str_def
      bin_digits_pos zfill_def)

lemma a_int: "int_base2 ''01100001'' = Inr 97"
  by (simp add: int_base2_def bit_val_def)

lemma a_len: "bit_length 97 = 7"
  by (simp add: bit_length_pos)

lemma be_bytes_1: "be_bytes 1 n = [of_nat (n mod 256)]"
  unfolding One_nat_def by simp

lemma a_text: "bits_to_text ''01100001'' = [97]"
  by (simp add: bits_to_text_def a_int a_len to_bytes_big_def be_bytes_1)

lemma replicate_num: "replicate (numeral k) x = x # replicate (pred_numeral k) x"
  by (simp add: numeral_eq_Suc)

lemma header_16: "zfill header_len (bin_str 16) = ''00000000000000000000000000010000''"
  by (simp add: header_len_def bin_str_def bin_digits_pos zfill_def replicate_num)

lemma full_bits_hi: "full_bits ''0110100001101001'' = ''000000000000000000000000000100000110100001101001''"
proof -
  have "length ''0110100001101001'' = 16" by simp
  then show ?thesis unfolding full_bits_def by (simp only: header_16 append.simps)
qed

lemma wf_carrier48: "wf_image carrier48"
  by (simp add: wf_image_def carrier48_def)

lemma wf_carrier51: "wf_image carrier51"
  by (simp add: wf_image_def carrier51_def)


lemma encode_hi_48: "encode carrier48 [104, 105] = Inr stego48"
proof -
  have "encode carrier48 [104, 105] = Inr (carrier48\<lparr>samples := write_lsbs (samples carrier48)
          (map (\<lambda>c. of_nat (bit_val c)) (full_bits ''0110100001101001''))\<rparr>)"
    by (rule encode_success[OF hi_bits]) (simp_all add: full_bits_hi carrier48_def)
  then show ?thesis
    by (simp add: full_bits_hi write_lsbs_def bit_val_def carrier48_def stego48_def)
qed


subsection \<open>The codec on texts without a leading zero byte\<close>

text \<open>
  \<^verbatim>\<open>from_bytes\<close> and \<^verbatim>\<open>to_bytes\<close> are inverse on byte strings that do not start with a
  zero byte, the decoder inverts the encoder on every text that can be encoded, and so
  extraction returns the embedded text whenever its first character is not \<open>U+0000\<close>.
\<close>

lemma unat_byte: "n < 256 \<Longrightarrow> unat (of_nat n :: u8) = n"
  by (simp add: unat_of_nat)

lemma unat_u8_less: "unat (b :: u8) < 256"
  using unsigned_less[of b, where 'a = nat] by simp

lemma from_bytes_snoc: "from_bytes_big (bs @ [b]) = 256 * from_bytes_big bs + unat b"
  by (simp add: from_bytes_big_def)

lemma be_bytes_from_bytes: "be_bytes (length bs) (from_bytes_big bs) = bs"
proof (induction bs rule: rev_induct)
  case Nil
  then show ?case by simp
next
  case (snoc b bs)
  have "unat b < 256" by (rule unat_u8_less)
  then have "(256 * from_bytes_big bs + unat b) div 256 = from_bytes_big bs"
    and "(256 * from_bytes_big bs + unat b) mod 256 = unat b"
    by simp_all
  then show ?case using snoc by (simp add: from_bytes_snoc)
qed

lemma from_bytes_upper: "from_bytes_big bs < 256 ^ length bs"
proof (induction bs rule: rev_induct)
  case Nil
  then show ?case by (simp add: from_bytes_big_def)
next
  case (snoc b bs)
  have "unat b < 256" by (rule unat_u8_less)
  with snoc show ?case by (simp add: from_bytes_snoc)
qed

lemma from_bytes_Cons: "from_bytes_big (b # bs) = unat b * 256 ^ length bs + from_bytes_big bs"
proof (induction bs rule: rev_induct)
  case Nil
  then show ?case by (simp add: from_bytes_big_def)
next
  case (snoc c bs)
  have "from_bytes_big (b # bs @ [c]) = 256 * from_bytes_big (b # bs) + unat c"
    using from_bytes_snoc[of "b # bs" c] by simp
  then show ?case using snoc by (simp add: from_bytes_snoc algebra_simps)
qed

lemma from_bytes_lower: "b \<noteq> 0 \<Longrightarrow> 256 ^ length bs \<le> from_bytes_big (b # bs)"
proof -
  assume "b \<noteq> 0"
  then have "1 \<le> unat b" by (simp add: unat_gt_0 Suc_leI)
  then have "256 ^ length bs \<le> unat b * 256 ^ length bs" by simp
  then show ?thesis unfolding from_bytes_Cons by linarith
qed

lemma p256: "(256::nat) ^ k = 2 ^ (8 * k)"
  by (simp add: power_mult)

lemma byte_count:
  assumes "256 ^ k \<le> n" and "n < 256 ^ Suc k"
  shows "(bit_length n + 7) div 8 = Suc k"
proof -
  have "n < 2 ^ (8 * k + 8)" using assms(2) unfolding p256 by (simp add: add.commute)
  then have u: "bit_length n \<le> 8 * k + 8" by (rule bit_length_le)
  have "(2::nat) ^ (8 * k) \<le> n" using assms(1) unfolding p256 .
  also have "n < 2 ^ bit_length n" by (rule bit_length_upper)
  finally have "8 * k < bit_length n" by simp
  with u show ?thesis by arith
qed

lemma length_bin_str: "0 < n \<Longrightarrow> length (bin_str n) = bit_length n"
  by (simp add: bin_str_def length_bin_digits)

lemma ceil8_le: "(a::nat) \<le> 8 * ((a + 7) div 8)"
proof -
  have "8 * ((a + 7) div 8) + (a + 7) mod 8 = a + 7" by (rule mult_div_mod_eq)
  moreover have "(a + 7) mod 8 < 8" by simp
  ultimately show ?thesis by linarith
qed

lemma codec_bytes:
  assumes enc: "utf8_encode T = Inr (b # bs)" and nz: "b \<noteq> 0"
  shows "\<exists>tb. text_to_bits T = Inr tb \<and> length tb = 8 * Suc (length bs)
           \<and> bits_to_text tb = utf8_decode_ignore (b # bs)"
proof -
  define n where "n = from_bytes_big (b # bs)"
  define tb where "tb = zfill (8 * ((length (bin_str n) + 7) div 8)) (bin_str n)"
  have lo: "256 ^ length bs \<le> n" unfolding n_def using nz by (rule from_bytes_lower)
  have "(0::nat) < 256 ^ length bs" by simp
  with lo have pos: "0 < n" by linarith
  have hi: "n < 256 ^ Suc (length bs)"
    unfolding n_def using from_bytes_upper[of "b # bs"] by simp
  have k: "(bit_length n + 7) div 8 = Suc (length bs)" using lo hi by (rule byte_count)
  have t: "text_to_bits T = Inr tb"
    using enc by (simp add: text_to_bits_def Let_def tb_def n_def)
  have "bit_length n \<le> 8 * Suc (length bs)" using ceil8_le[of "bit_length n"] unfolding k .
  then have l: "length tb = 8 * Suc (length bs)"
    unfolding tb_def length_zfill length_bin_str[OF pos] k by (simp add: max_def)
  have i: "int_base2 tb = Inr n" unfolding tb_def by (rule int_base2_zfill_bin)
  have b: "be_bytes (Suc (length bs)) n = b # bs"
    unfolding n_def using be_bytes_from_bytes[of "b # bs"] by (simp del: be_bytes.simps)
  have tbb: "to_bytes_big n (Suc (length bs)) = Inr (b # bs)"
    unfolding to_bytes_big_def b using hi by (simp del: be_bytes.simps power_Suc)
  have "bits_to_text tb = utf8_decode_ignore (b # bs)"
    by (simp only: bits_to_text_def i k sum.case tbb)
  with t l show ?thesis by blast
qed

lemma div4096: "(cp::nat) div 4096 = cp div 64 div 64"
  by (simp add: div_mult2_eq)

lemma div262144: "(cp::nat) div 262144 = cp div 4096 div 64"
  by (simp add: div_mult2_eq)

lemma cp3_val: "(cp div 4096) * 4096 + (cp div 64 mod 64) * 64 + cp mod 64 = (cp::nat)"
proof -
  define q where "q = cp div 64"
  define r where "r = q div 64"
  define m where "m = q mod 64"
  define c where "c = cp mod 64"
  have A: "q = r * 64 + m" unfolding r_def m_def by simp
  have B: "cp = q * 64 + c" unfolding q_def c_def by simp
  have "r * 4096 + m * 64 + c = cp" using A B by simp
  then show ?thesis unfolding div4096 r_def m_def c_def q_def .
qed

lemma cp4_val:
  "(cp div 262144) * 262144 + (cp div 4096 mod 64) * 4096 + (cp div 64 mod 64) * 64 + cp mod 64
     = (cp::nat)"
proof -
  define p where "p = cp div 4096"
  define s where "s = p div 64"
  define t where "t = p mod 64"
  have A: "p = s * 64 + t" unfolding s_def t_def by simp
  have B: "p * 4096 + (cp div 64 mod 64) * 64 + cp mod 64 = cp"
    unfolding p_def by (rule cp3_val)
  have "s * 262144 + t * 4096 + (cp div 64 mod 64) * 64 + cp mod 64 = cp"
    using A B by simp
  then show ?thesis unfolding div262144 s_def t_def p_def .
qed

lemma decode_cp_1:
  assumes "cp < 128"
  shows "utf8_decode_ignore (of_nat cp # rest) = cp # utf8_decode_ignore rest"
proof -
  define b0 where "b0 = (of_nat cp :: u8)"
  have u0: "unat b0 = cp" unfolding b0_def using assms by (simp add: unat_byte)
  show ?thesis unfolding b0_def[symmetric]
    by (subst utf8_decode_ignore.simps(2)) (simp add: u0 assms)
qed

lemma decode_cp_2:
  assumes "128 \<le> cp" and "cp < 2048"
  shows "utf8_decode_ignore (of_nat (192 + cp div 64) # of_nat (128 + cp mod 64) # rest)
         = cp # utf8_decode_ignore rest"
proof -
  define a where "a = cp div 64"
  define c where "c = cp mod 64"
  define b0 where "b0 = (of_nat (192 + a) :: u8)"
  define b1 where "b1 = (of_nat (128 + c) :: u8)"
  have a: "2 \<le> a" "a < 32"
    unfolding a_def using assms by (simp_all add: less_eq_div_iff_mult_less_eq div_less_iff_less_mult)
  have c: "c < 64" unfolding c_def by simp
  have v: "a * 64 + c = cp" unfolding a_def c_def by simp
  have u0: "unat b0 = 192 + a" unfolding b0_def using a by (intro unat_byte) simp
  have u1: "unat b1 = 128 + c" unfolding b1_def using c by (intro unat_byte) simp
  have "utf8_decode_ignore (b0 # b1 # rest) = cp # utf8_decode_ignore rest"
    by (subst utf8_decode_ignore.simps(2)) (use a c v in \<open>simp add: u0 u1 is_cont_def cont_val_def\<close>)
  then show ?thesis unfolding b0_def b1_def a_def c_def .
qed

lemma decode_cp_3:
  assumes "2048 \<le> cp" and "cp < 65536" and "\<not> (55296 \<le> cp \<and> cp < 57344)"
  shows "utf8_decode_ignore (of_nat (224 + cp div 4096) # of_nat (128 + cp div 64 mod 64)
           # of_nat (128 + cp mod 64) # rest)
         = cp # utf8_decode_ignore rest"
proof -
  define q where "q = cp div 64"
  define a where "a = cp div 4096"
  define m where "m = q mod 64"
  define c where "c = cp mod 64"
  define b0 where "b0 = (of_nat (224 + a) :: u8)"
  define b1 where "b1 = (of_nat (128 + m) :: u8)"
  define b2 where "b2 = (of_nat (128 + c) :: u8)"
  have a: "a < 16"
    unfolding a_def using assms by (simp add: div_less_iff_less_mult)
  have m: "m < 64" unfolding m_def by simp
  have c: "c < 64" unfolding c_def by simp
  have qa: "q = a * 64 + m" unfolding a_def m_def q_def div4096 by simp
  have q_lo: "32 \<le> q"
    unfolding q_def using assms by (simp add: less_eq_div_iff_mult_less_eq)
  have q_sur: "\<not> (864 \<le> q \<and> q < 896)"
    unfolding q_def using assms by (simp add: less_eq_div_iff_mult_less_eq div_less_iff_less_mult)
  have lo: "a = 0 \<Longrightarrow> 32 \<le> m" using qa q_lo by simp
  have sur: "a = 13 \<Longrightarrow> m < 32" using qa q_sur m by simp
  have v: "a * 4096 + m * 64 + c = cp"
    unfolding a_def m_def c_def q_def by (rule cp3_val)
  have u0: "unat b0 = 224 + a" unfolding b0_def using a by (intro unat_byte) simp
  have u1: "unat b1 = 128 + m" unfolding b1_def using m by (intro unat_byte) simp
  have u2: "unat b2 = 128 + c" unfolding b2_def using c by (intro unat_byte) simp
  have "utf8_decode_ignore (b0 # b1 # b2 # rest) = cp # utf8_decode_ignore rest"
    by (subst utf8_decode_ignore.simps(2))
       (use a m c v lo sur in \<open>auto simp: u0 u1 u2 is_cont_def cont_val_def\<close>)
  then show ?thesis unfolding b0_def b1_def b2_def a_def m_def c_def q_def .
qed

lemma decode_cp_4:
  assumes "65536 \<le> cp" and "cp < 1114112"
  shows "utf8_decode_ignore (of_nat (240 + cp div 262144) # of_nat (128 + cp div 4096 mod 64)
           # of_nat (128 + cp div 64 mod 64) # of_nat (128 + cp mod 64) # rest)
         = cp # utf8_decode_ignore rest"
proof -
  define p where "p = cp div 4096"
  define a where "a = cp div 262144"
  define t where "t = p mod 64"
  define m where "m = cp div 64 mod 64"
  define c where "c = cp mod 64"
  define b0 where "b0 = (of_nat (240 + a) :: u8)"
  define b1 where "b1 = (of_nat (128 + t) :: u8)"
  define b2 where "b2 = (of_nat (128 + m) :: u8)"
  define b3 where "b3 = (of_nat (128 + c) :: u8)"
  have a: "a < 5"
    unfolding a_def using assms by (simp add: div_less_iff_less_mult)
  have t: "t < 64" unfolding t_def by simp
  have m: "m < 64" unfolding m_def by simp
  have c: "c < 64" unfolding c_def by simp
  have pa: "p = a * 64 + t" unfolding a_def t_def p_def div262144 by simp
  have p_lo: "16 \<le> p"
    unfolding p_def using assms by (simp add: less_eq_div_iff_mult_less_eq)
  have p_hi: "p < 272"
    unfolding p_def using assms by (simp add: div_less_iff_less_mult)
  have lo: "a = 0 \<Longrightarrow> 16 \<le> t" using pa p_lo by simp
  have hi: "a = 4 \<Longrightarrow> t < 16" using pa p_hi by simp
  have v: "a * 262144 + t * 4096 + m * 64 + c = cp"
    unfolding a_def t_def m_def c_def p_def by (rule cp4_val)
  have u0: "unat b0 = 240 + a" unfolding b0_def using a by (intro unat_byte) simp
  have u1: "unat b1 = 128 + t" unfolding b1_def using t by (intro unat_byte) simp
  have u2: "unat b2 = 128 + m" unfolding b2_def using m by (intro unat_byte) simp
  have u3: "unat b3 = 128 + c" unfolding b3_def using c by (intro unat_byte) simp
  have "utf8_decode_ignore (b0 # b1 # b2 # b3 # rest) = cp # utf8_decode_ignore rest"
    by (subst utf8_decode_ignore.simps(2))
       (use a t m c v lo hi in \<open>auto simp: u0 u1 u2 u3 is_cont_def cont_val_def\<close>)
  then show ?thesis unfolding b0_def b1_def b2_def b3_def a_def t_def m_def c_def p_def .
qed

lemma decode_encoded_cp:
  assumes "utf8_encode_cp cp = Inr bs"
  shows "utf8_decode_ignore (bs @ rest) = cp # utf8_decode_ignore rest"
proof -
  consider "cp < 128" | "128 \<le> cp" "cp < 2048"
    | "2048 \<le> cp" "cp < 65536" | "65536 \<le> cp" "cp < 1114112" | "1114112 \<le> cp"
    by linarith
  then show ?thesis
  proof cases
    case 1
    with assms have "bs = [of_nat cp]" by (simp add: utf8_encode_cp_def)
    then show ?thesis using decode_cp_1[OF 1] by simp
  next
    case 2
    with assms have "bs = [of_nat (192 + cp div 64), of_nat (128 + cp mod 64)]"
      by (simp add: utf8_encode_cp_def)
    then show ?thesis using decode_cp_2[OF 2] by simp
  next
    case 3
    with assms have ns: "\<not> (55296 \<le> cp \<and> cp < 57344)"
      and "bs = [of_nat (224 + cp div 4096), of_nat (128 + cp div 64 mod 64),
                 of_nat (128 + cp mod 64)]"
      by (auto simp: utf8_encode_cp_def split: if_splits)
    then show ?thesis using decode_cp_3[OF 3 ns] by simp
  next
    case 4
    with assms have "bs = [of_nat (240 + cp div 262144), of_nat (128 + cp div 4096 mod 64),
                           of_nat (128 + cp div 64 mod 64), of_nat (128 + cp mod 64)]"
      by (simp add: utf8_encode_cp_def)
    then show ?thesis using decode_cp_4[OF 4] by simp
  next
    case 5
    with assms show ?thesis by (simp add: utf8_encode_cp_def)
  qed
qed

lemma decode_encoded_text:
  "utf8_encode T = Inr bs \<Longrightarrow> utf8_decode_ignore bs = T"
proof (induction T arbitrary: bs)
  case Nil
  then show ?case by (auto simp: utf8_decode_ignore.simps(1))
next
  case (Cons cp T)
  then obtain b r where b: "utf8_encode_cp cp = Inr b" and r: "utf8_encode T = Inr r"
    and bs: "bs = b @ r"
    by (auto split: sum.splits)
  show ?case unfolding bs decode_encoded_cp[OF b] using Cons.IH[OF r] by simp
qed

lemma first_byte_nonzero:
  assumes "utf8_encode_cp cp = Inr bs" and "cp \<noteq> 0"
  shows "\<exists>b r. bs = b # r \<and> b \<noteq> 0"
proof -
  have nz: "unat (of_nat n :: u8) = n \<Longrightarrow> 0 < n \<Longrightarrow> (of_nat n :: u8) \<noteq> 0" for n
    by (metis less_numeral_extra(3) unat_0) 
  consider "cp < 128" | "128 \<le> cp" "cp < 2048"
    | "2048 \<le> cp" "cp < 65536" | "65536 \<le> cp" "cp < 1114112" | "1114112 \<le> cp"
    by linarith
  then show ?thesis
  proof cases
    case 1
    with assms have "bs = [of_nat cp]" by (simp add: utf8_encode_cp_def)
    moreover have "(of_nat cp :: u8) \<noteq> 0"
      using 1 assms(2) by (intro nz unat_byte) simp_all
    ultimately show ?thesis by blast
  next
    case 2
    with assms have "bs = [of_nat (192 + cp div 64), of_nat (128 + cp mod 64)]"
      by (simp add: utf8_encode_cp_def)
    moreover have "cp div 64 < 32" using 2 by (simp add: div_less_iff_less_mult)
    then have "(of_nat (192 + cp div 64) :: u8) \<noteq> 0"
      by (intro nz unat_byte) simp_all
    ultimately show ?thesis by blast
  next
    case 3
    with assms have "bs = [of_nat (224 + cp div 4096), of_nat (128 + cp div 64 mod 64),
                 of_nat (128 + cp mod 64)]"
      by (auto simp: utf8_encode_cp_def split: if_splits)
    moreover have "cp div 4096 < 16" using 3 by (simp add: div_less_iff_less_mult)
    then have "(of_nat (224 + cp div 4096) :: u8) \<noteq> 0"
      by (intro nz unat_byte) simp_all
    ultimately show ?thesis by blast
  next
    case 4
    with assms have "bs = [of_nat (240 + cp div 262144), of_nat (128 + cp div 4096 mod 64),
                           of_nat (128 + cp div 64 mod 64), of_nat (128 + cp mod 64)]"
      by (simp add: utf8_encode_cp_def)
    moreover have "cp div 262144 < 5" using 4 by (simp add: div_less_iff_less_mult)
    then have "(of_nat (240 + cp div 262144) :: u8) \<noteq> 0"
      by (intro nz unat_byte) simp_all
    ultimately show ?thesis by blast
  next
    case 5
    with assms show ?thesis by (simp add: utf8_encode_cp_def)
  qed
qed

lemma round_trip_no_leading_nul:
  assumes wf: "wf_image img" and enc: "utf8_encode (cp # T) = Inr bs" and nz: "cp \<noteq> 0"
    and small: "8 * length bs < 2 ^ 32" and fits: "32 + 8 * length bs \<le> capacity img"
  shows "round_trip img (cp # T) = Inr (cp # T)"
proof -
  from enc obtain h r where h: "utf8_encode_cp cp = Inr h" and bs: "bs = h @ r"
    by (auto split: sum.splits)
  from first_byte_nonzero[OF h nz] bs obtain b bs' where b: "bs = b # bs'" "b \<noteq> 0"
    by auto
  from codec_bytes[OF enc[unfolded b(1)] b(2)] obtain tb where
    tb: "text_to_bits (cp # T) = Inr tb" and l: "length tb = 8 * Suc (length bs')"
    and d: "bits_to_text tb = utf8_decode_ignore (b # bs')"
    by blast
  have lb: "length tb = 8 * length bs" using l b(1) by simp
  have "round_trip img (cp # T) = Inr (bits_to_text tb)"
    using wf tb small fits unfolding lb[symmetric] by (rule round_trip_bits)
  also have "\<dots> = Inr (cp # T)"
    using d decode_encoded_text[OF enc] b(1) by simp
  finally show ?thesis .
qed

lemma psnr_shape_mismatch_iff:
  "calculate_psnr img1 img2 = Inl ShapeMismatch \<longleftrightarrow>
     broadcast_dim (height img1) (height img2) = None
     \<or> broadcast_dim (width img1) (width img2) = None"
  by (auto simp: calculate_psnr_def Let_def split: option.splits)

subsection \<open>The text of the early return as a message\<close>

lemma write_lsbs_Nil: "write_lsbs xs [] = xs"
  by (simp add: write_lsbs_def)

lemma write_lsbs_Cons: "write_lsbs (x # xs) (b # bs) = ((x AND 254) OR b) # write_lsbs xs bs"
  by (simp add: write_lsbs_def Let_def)

lemma marker_utf8: "utf8_encode no_marker_text = Inr marker_bytes"
  by (simp add: no_marker_text_def marker_bytes_def utf8_encode_cp_def)

lemma marker_text_bits: "text_to_bits no_marker_text = Inr marker_bits"
  unfolding marker_bits_def
  by (simp add: text_to_bits_def marker_utf8 marker_bytes_def from_bytes_big_def bin_str_def
      bin_digits_pos zfill_def)

lemma length_marker_bits: "length marker_bits = 360"
  by (simp add: marker_bits_def)

lemma header_360: "zfill header_len (bin_str 360) = ''00000000000000000000000101101000''"
  by (simp add: header_len_def bin_str_def bin_digits_pos zfill_def replicate_num)

lemma full_bits_marker:
  "full_bits marker_bits = ''00000000000000000000000101101000'' @ marker_bits"
  unfolding full_bits_def length_marker_bits header_360 by (rule refl)

lemma length_full_bits_marker: "length (full_bits marker_bits) = 392"
  using length_full_bits[of marker_bits] by (simp add: length_marker_bits)

lemma marker_stego_eq:
  "marker_carrier\<lparr>samples := write_lsbs (samples marker_carrier)
      (map (\<lambda>c. of_nat (bit_val c)) (full_bits marker_bits))\<rparr> = marker_stego"
  unfolding full_bits_marker
  by (simp add: marker_bits_def marker_carrier_def marker_stego_def replicate_num bit_val_def
      write_lsbs_Cons write_lsbs_Nil)

lemma encode_marker: "encode marker_carrier no_marker_text = Inr marker_stego"
proof -
  have "encode marker_carrier no_marker_text = Inr (marker_carrier\<lparr>samples :=
          write_lsbs (samples marker_carrier)
            (map (\<lambda>c. of_nat (bit_val c)) (full_bits marker_bits))\<rparr>)"
    by (rule encode_success[OF marker_text_bits])
       (simp_all add: length_full_bits_marker marker_carrier_def)
  then show ?thesis unfolding marker_stego_eq .
qed

lemma header_marker:
  "int_base2 (join_str (take header_len (lsb_bits marker_stego))) = Inr 360"
proof -
  have s: "length marker_bits < 2 ^ 32" by (simp add: length_marker_bits)
  have f: "length (full_bits marker_bits) \<le> length (samples marker_carrier)"
    by (simp add: length_full_bits_marker marker_carrier_def)
  show ?thesis
    using header_str_encoded[OF s f] unfolding marker_stego_eq
    by (simp add: int_base2_zfill_bin length_marker_bits)
qed

lemma round_trip_marker: "round_trip marker_carrier no_marker_text = Inr no_marker_text"
proof -
  have wf: "wf_image marker_carrier" by (simp add: wf_image_def marker_carrier_def)
  have l: "length marker_bytes = 45" by (simp add: marker_bytes_def)
  show ?thesis
    using wf marker_utf8 unfolding no_marker_text_def
    by (rule round_trip_no_leading_nul) (simp_all add: l capacity_def marker_carrier_def)
qed

subsection \<open>Payloads of \<open>2^32\<close> bits and more\<close>








section \<open>The claims\<close>

text \<open>
  C9 (PSNR identity). For every image \<open>I\<close> (positive width and height, three samples per
  pixel), \<^verbatim>\<open>calculate_psnr(I, I)\<close> returns \<^verbatim>\<open>float('inf')\<close>: all squared differences are 0,
  so the mean squared error is exactly 0 and the first \<^verbatim>\<open>return\<close> is taken; the result is
  neither a finite number, nor \<^verbatim>\<open>nan\<close>, nor an error.
\<close>

theorem psnr_identity:
  assumes "wf_image img"
  shows "calculate_psnr img img = Inr Infinity"
proof -
  let ?sq = "squared_diffs img img (height img) (width img)"
  have "0 < length ?sq"
    using assms by (simp add: length_squared_diffs wf_image_def)
  then have ne: "?sq \<noteq> []" by auto
  have "sum_list ?sq = 0"
    by (rule sum_list_zero) (rule squared_diffs_same)
  with ne show ?thesis
    by (simp add: calculate_psnr_def broadcast_dim_same Let_def)
qed

theorem psnr_identity_witness:
  "wf_image \<lparr>width = 2, height = 1, samples = [10, 20, 30, 40, 50, 60]\<rparr>
   \<and> calculate_psnr \<lparr>width = 2, height = 1, samples = [10, 20, 30, 40, 50, 60]\<rparr>
        \<lparr>width = 2, height = 1, samples = [10, 20, 30, 40, 50, 60]\<rparr> = Inr Infinity"
proof -
  have w: "wf_image \<lparr>width = 2, height = 1, samples = [10, 20, 30, 40, 50, 60]\<rparr>"
    by (simp add: wf_image_def)
  from w psnr_identity[OF w] show ?thesis by simp
qed

text \<open>
  C3 (PSNR shape guard). The claim is that two images of different width or height never
  get a number. \<^verbatim>\<open>calculate_psnr\<close> has no check of its own: it relies on numpy to raise in
  \<^verbatim>\<open>img1 - img2\<close>, and numpy broadcasts a dimension of size 1. A 1x1 image against a 2x1
  image gives the squared differences \<open>0, 0, 0, 1, 1, 1\<close>, mean \<open>1/2\<close>, and the number
  \<open>10 * log10(65025 / 0.5)\<close> is returned.
\<close>

theorem psnr_broadcast_1x1_2x1:
  "calculate_psnr \<lparr>width = 1, height = 1, samples = [0, 0, 0]\<rparr>
     \<lparr>width = 2, height = 1, samples = [0, 0, 0, 1, 1, 1]\<rparr>
   = Inr (Decibel (10 * log 10 130050))"
  by (simp add: calculate_psnr_def broadcast_dim_def squared_diffs_def sample_at_def Let_def
      upt3 upt2)

text \<open>
  C10 (empty message). \<^verbatim>\<open>text_to_bits("")\<close> is the string of exactly eight zeros
  (\<^verbatim>\<open>bin(0)[2:]\<close> is \<^verbatim>\<open>'0'\<close>, filled to width 8), and for every image of capacity at least
  40 bits, embedding the empty message and extracting from the result returns the empty
  string.
\<close>

theorem empty_message_round_trip:
  assumes "wf_image img" and "40 \<le> capacity img"
  shows "text_to_bits [] = Inr ''00000000'' \<and> round_trip img [] = Inr []"
proof -
  have "round_trip img [] = Inr (bits_to_text ''00000000'')"
    using assms by (intro round_trip_bits) (simp_all add: text_to_bits_empty)
  then show ?thesis
    by (simp add: text_to_bits_empty bits_to_text_zero_byte)
qed

theorem empty_message_round_trip_witness:
  "wf_image \<lparr>width = 7, height = 2, samples = replicate 42 255\<rparr>
   \<and> 40 \<le> capacity \<lparr>width = 7, height = 2, samples = replicate 42 255\<rparr>
   \<and> text_to_bits [] = Inr ''00000000''
   \<and> round_trip \<lparr>width = 7, height = 2, samples = replicate 42 255\<rparr> [] = Inr []"
proof -
  have w: "wf_image \<lparr>width = 7, height = 2, samples = replicate 42 255\<rparr>"
    by (simp add: wf_image_def)
  have c: "40 \<le> capacity \<lparr>width = 7, height = 2, samples = replicate 42 255\<rparr>"
    by (simp add: capacity_def)
  from w c empty_message_round_trip[OF w c] show ?thesis by simp
qed

text \<open>
  C2 (all-zero image). The claim is that extraction from an image with at least 32 samples
  whose least significant bits are all 0 reads the length 0 and returns the empty message.
  The header is indeed read as 0, but then \<^verbatim>\<open>bits_to_text\<close> gets the empty bit string,
  \<^verbatim>\<open>int('', 2)\<close> raises, and the bare \<^verbatim>\<open>except\<close> returns the decode-error string: the
  result is that string (\<open>decode_error_text\<close>, six characters), not the empty message.
  First the claim as amended, for every such image; then the claim as stated, refuted on
  the 11x1 image of zeros.
\<close>

theorem zero_image_decode_failed:
  assumes "32 \<le> length (samples img)"
    and "lsb_bits img = replicate (length (samples img)) 0"
  shows "int_base2 (join_str (take header_len (lsb_bits img))) = Inr 0
         \<and> decode img = Inr decode_error_text"
proof -
  have t: "take header_len (lsb_bits img) = replicate 32 0"
    using assms by (simp add: header_len_def min_def)
  have h: "int_base2 (join_str (take header_len (lsb_bits img))) = Inr 0"
    unfolding t by (simp add: join_str_zeros int_base2_zeros)
  show ?thesis
    using h assms(1) by (simp add: decode_def Let_def bits_to_text_empty header_len_def lsb_bits_def)
qed

theorem zero_image_decode_failed_witness:
  "32 \<le> length (samples \<lparr>width = 11, height = 1, samples = replicate 33 0\<rparr>)
   \<and> lsb_bits \<lparr>width = 11, height = 1, samples = replicate 33 0\<rparr>
       = replicate (length (samples \<lparr>width = 11, height = 1, samples = replicate 33 0\<rparr>)) 0
   \<and> int_base2 (join_str (take header_len (lsb_bits \<lparr>width = 11, height = 1, samples = replicate 33 0\<rparr>))) = Inr 0
   \<and> decode \<lparr>width = 11, height = 1, samples = replicate 33 0\<rparr> = Inr decode_error_text"
proof -
  let ?z = "\<lparr>width = 11, height = 1, samples = replicate 33 (0::u8)\<rparr>"
  have a: "32 \<le> length (samples ?z)" by simp
  have b: "lsb_bits ?z = replicate (length (samples ?z)) 0" by (simp add: lsb_bits_def)
  from a b zero_image_decode_failed[OF a b] show ?thesis by blast
qed

theorem zero_image_not_empty_message:
  "wf_image \<lparr>width = 11, height = 1, samples = replicate 33 0\<rparr>
   \<and> lsb_bits \<lparr>width = 11, height = 1, samples = replicate 33 0\<rparr> = replicate 33 0
   \<and> decode \<lparr>width = 11, height = 1, samples = replicate 33 0\<rparr> \<noteq> Inr []"
proof -
  let ?z = "\<lparr>width = 11, height = 1, samples = replicate 33 (0::u8)\<rparr>"
  have t: "take header_len (lsb_bits ?z) = replicate 32 0"
    by (simp add: header_len_def lsb_bits_def)
  have h: "int_base2 (join_str (take header_len (lsb_bits ?z))) = Inr 0"
    unfolding t by (simp add: join_str_zeros int_base2_zeros)
  have "decode ?z = Inr decode_error_text"
    using h by (simp add: decode_def Let_def bits_to_text_empty header_len_def lsb_bits_def)
  then show ?thesis by (simp add: wf_image_def lsb_bits_def decode_error_text_def)
qed

text \<open>
  C8 (capacity guard of extraction). The claim is that, for every image with
  \<open>totalBits = width * height * 3\<close> at least 32, extraction fails with the no-capacity error
  if and only if the number \<open>msg_len\<close> parsed from the first 32 least significant bits
  exceeds \<open>totalBits - 32\<close>, and otherwise reads the next \<open>msg_len\<close> bits and decodes them.
  In the code the failure is no exception but a returned string, \<open>no_marker_text\<close>, and
  the other branch returns a string too, so the two cannot be told apart by the
  result: the "only if" half fails. What holds for every such image is the claim as
  amended: the header parses; if \<open>msg_len > totalBits - 32\<close> the result is
  \<open>no_marker_text\<close>; otherwise it is what \<^verbatim>\<open>bits_to_text\<close> makes of the next \<open>msg_len\<close> bits;
  and so the result is \<open>no_marker_text\<close> exactly when \<open>msg_len > totalBits - 32\<close> or those
  bits decode to that very text. Then the claim as stated, refuted on the 131x1 image
  that carries \<open>no_marker_text\<close> as its message: \<open>msg_len = 360\<close> is within
  \<open>totalBits - 32 = 361\<close>, and the result is \<open>no_marker_text\<close>.
\<close>

theorem decode_capacity_guard:
  assumes "wf_image img" and "32 \<le> capacity img"
  shows "\<exists>msg_len. int_base2 (join_str (take header_len (lsb_bits img))) = Inr msg_len
           \<and> (capacity img - 32 < msg_len \<longrightarrow> decode img = Inr no_marker_text)
           \<and> (msg_len \<le> capacity img - 32 \<longrightarrow>
                decode img
                = Inr (bits_to_text (join_str (take msg_len (drop header_len (lsb_bits img))))))
           \<and> (decode img = Inr no_marker_text \<longleftrightarrow>
                capacity img - 32 < msg_len
                \<or> bits_to_text (join_str (take msg_len (drop header_len (lsb_bits img))))
                    = no_marker_text)"
proof -
  have c: "capacity img = length (samples img)"
    using assms(1) by (simp add: wf_image_def capacity_def)
  with assms(2) have "32 \<le> length (samples img)" by simp
  then obtain n where n: "int_base2 (join_str (take header_len (lsb_bits img))) = Inr n"
    using header_parses by blast
  have len: "length (lsb_bits img) = capacity img" by (simp add: c lsb_bits_def)
  have cmp: "(int n > int (length (lsb_bits img)) - int header_len) = (capacity img - 32 < n)"
    using assms(2) unfolding len by (simp add: header_len_def) linarith
  have "decode img = (if capacity img - 32 < n then Inr no_marker_text
          else Inr (bits_to_text (join_str (take n (drop header_len (lsb_bits img))))))"
    unfolding decode_def Let_def n using cmp by simp
  then show ?thesis using n by (intro exI[of _ n]) auto
qed

theorem decode_capacity_guard_witness:
  "wf_image \<lparr>width = 11, height = 1, samples = replicate 33 0\<rparr>
   \<and> 32 \<le> capacity \<lparr>width = 11, height = 1, samples = replicate 33 0\<rparr>
   \<and> int_base2 (join_str (take header_len
         (lsb_bits \<lparr>width = 11, height = 1, samples = replicate 33 0\<rparr>))) = Inr 0
   \<and> decode \<lparr>width = 11, height = 1, samples = replicate 33 0\<rparr>
       = Inr (bits_to_text (join_str (take 0 (drop header_len
           (lsb_bits \<lparr>width = 11, height = 1, samples = replicate 33 0\<rparr>)))))
   \<and> wf_image \<lparr>width = 11, height = 1, samples = replicate 33 255\<rparr>
   \<and> 32 \<le> capacity \<lparr>width = 11, height = 1, samples = replicate 33 255\<rparr>
   \<and> int_base2 (join_str (take header_len
         (lsb_bits \<lparr>width = 11, height = 1, samples = replicate 33 255\<rparr>))) = Inr 4294967295
   \<and> decode \<lparr>width = 11, height = 1, samples = replicate 33 255\<rparr> = Inr no_marker_text"
proof -
  let ?z = "\<lparr>width = 11, height = 1, samples = replicate 33 (0::u8)\<rparr>"
  let ?f = "\<lparr>width = 11, height = 1, samples = replicate 33 (255::u8)\<rparr>"
  have wz: "wf_image ?z" and wf: "wf_image ?f" by (simp_all add: wf_image_def)
  have cz: "32 \<le> capacity ?z" and cf: "32 \<le> capacity ?f" by (simp_all add: capacity_def)
  have tz: "take header_len (lsb_bits ?z) = replicate 32 0"
    by (simp add: header_len_def lsb_bits_def)
  have hz: "int_base2 (join_str (take header_len (lsb_bits ?z))) = Inr 0"
    unfolding tz by (simp add: join_str_zeros int_base2_zeros)
  have tf: "take header_len (lsb_bits ?f) = replicate 32 1"
    by (simp add: header_len_def lsb_bits_def)
  have hf: "int_base2 (join_str (take header_len (lsb_bits ?f))) = Inr 4294967295"
    unfolding tf by (simp add: join_str_ones ones32)
  from decode_capacity_guard[OF wz cz] hz have
    "decode ?z = Inr (bits_to_text (join_str (take 0 (drop header_len (lsb_bits ?z)))))"
    by (auto simp: capacity_def)
  moreover from decode_capacity_guard[OF wf cf] hf have "decode ?f = Inr no_marker_text"
    by (auto simp: capacity_def)
  ultimately show ?thesis using wz wf cz cf hz hf by blast
qed

theorem marker_text_within_capacity:
  "wf_image marker_stego \<and> capacity marker_stego = 393
   \<and> encode marker_carrier no_marker_text = Inr marker_stego
   \<and> int_base2 (join_str (take header_len (lsb_bits marker_stego))) = Inr 360
   \<and> \<not> capacity marker_stego - 32 < 360
   \<and> decode marker_stego = Inr no_marker_text"
proof -
  have w: "wf_image marker_stego" by (simp add: wf_image_def marker_stego_def)
  have c: "capacity marker_stego = 393" by (simp add: capacity_def marker_stego_def)
  have "round_trip marker_carrier no_marker_text = Inr no_marker_text"
    by (rule round_trip_marker)
  then have d: "decode marker_stego = Inr no_marker_text"
    by (simp add: round_trip_def encode_marker)
  from w c d encode_marker header_marker show ?thesis by simp
qed




text \<open>
  C5 (bit isolation). For every successful \<^verbatim>\<open>encode\<close> and every sample of the image,
  touched or not, the seven high-order bits of the sample in the result equal those
  of the original sample; the result has as many samples as the original.
\<close>

theorem bit_isolation:
  assumes "encode img msg = Inr stego" and "i < length (samples img)"
  shows "length (samples stego) = length (samples img)
       \<and> drop_bit 1 (samples stego ! i) = drop_bit 1 (samples img ! i)"
proof -
  from encode_InrD[OF assms(1)] obtain tb where
    s: "stego = img\<lparr>samples := write_lsbs (samples img)
          (map (\<lambda>c. of_nat (bit_val c)) (full_bits tb))\<rparr>"
    by blast
  show ?thesis
    unfolding s using high_write_lsbs[OF assms(2)] by (simp add: length_write_lsbs)
qed

theorem bit_isolation_witness:
  "encode carrier48 [104, 105] = Inr stego48 \<and> 0 < length (samples carrier48)
   \<and> samples carrier48 ! 0 = 171 \<and> samples stego48 ! 0 = 170
   \<and> length (samples stego48) = length (samples carrier48)
   \<and> drop_bit 1 (samples stego48 ! 0) = drop_bit 1 (samples carrier48 ! 0)"
proof -
  have i: "0 < length (samples carrier48)" by (simp add: carrier48_def)
  from bit_isolation[OF encode_hi_48 i] encode_hi_48 i show ?thesis
    by (simp add: carrier48_def stego48_def)
qed





text \<open>
  C1 (round trip). The claim is that extraction returns the embedded text whenever the
  image is large enough. \<^verbatim>\<open>text_to_bits\<close> goes through \<^verbatim>\<open>int.from_bytes\<close>, which loses
  leading zero bytes: the two-character text \<open>U+0000 a\<close> (UTF-8 bytes \<open>00 61\<close>) gets the
  payload \<^verbatim>\<open>01100001\<close>, and extraction from the 48-sample image returns the
  one-character text \<open>a\<close>. The loss is confined to leading \<open>U+0000\<close>: for every other
  non-empty text the round trip holds (\<open>round_trip_no_leading_nul\<close>).
\<close>

theorem round_trip_drops_leading_nul:
  "wf_image carrier48 \<and> utf8_encode [0, 97] = Inr [0, 97]
   \<and> 32 + 8 * length [0::u8, 97] \<le> capacity carrier48
   \<and> round_trip carrier48 [0, 97] = Inr [97]"
proof -
  have c: "capacity carrier48 = 48" by (simp add: capacity_def carrier48_def)
  have "round_trip carrier48 [0, 97] = Inr (bits_to_text ''01100001'')"
    by (rule round_trip_bits[OF wf_carrier48 nul_a_bits]) (simp_all add: c)
  then show ?thesis
    by (simp add: a_text wf_carrier48 c utf8_encode_cp_def)
qed

end
